theory Spec2Isabelle
  imports Complex_Main "HOL-Library.Multiset"
begin

section \<open>The adaptive signal controller (adaptive\_signal\_controller.py)\<close>

text \<open>
  The controller turns a snapshot of per-approach vehicle counts into a timing plan.
  Python's floats are modelled as exact rationals (\<open>rat\<close>): every weight and the
  smoothing factor are dyadic, so the model agrees with the program as long as no
  floating-point rounding, overflow or NaN occurs. Python's unbounded \<open>int\<close> is
  \<open>int\<close>. The four approach names are a datatype; a dictionary built by a
  comprehension over \<open>APPROACHES\<close> has exactly those four keys and is a total function
  whose iteration order is \<open>APPROACHES\<close>; the dictionaries handed to and returned by
  \<open>_normalize_split\<close> are association lists in insertion order.
\<close>

subsection \<open>Configuration\<close>

datatype approach = N | E | S | W

definition APPROACHES :: "approach list" where
  "APPROACHES = [N, E, S, W]"

definition WEIGHT_car :: rat where "WEIGHT_car = 1"
definition WEIGHT_motorbike :: rat where "WEIGHT_motorbike = 1 / 2"
definition WEIGHT_truck :: rat where "WEIGHT_truck = 5 / 2"
definition WEIGHT_bus :: rat where "WEIGHT_bus = 2"

definition ALPHA_EMA :: rat where "ALPHA_EMA = 1 / 2"
definition CYCLE_MIN :: int where "CYCLE_MIN = 60"
definition CYCLE_MAX :: int where "CYCLE_MAX = 120"
definition GREEN_MIN :: int where "GREEN_MIN = 8"
definition GREEN_MAX :: int where "GREEN_MAX = 60"
definition YELLOW :: int where "YELLOW = 3"
definition ALL_RED :: int where "ALL_RED = 1"
definition FAIRNESS_MAX_SKIP :: int where "FAIRNESS_MAX_SKIP = 3"
definition PREEMPT_MIN_GREEN :: int where "PREEMPT_MIN_GREEN = 12"
definition PREEMPT_MAX_GREEN :: int where "PREEMPT_MAX_GREEN = 25"

subsection \<open>Data classes\<close>

record Counts =
  car :: int
  motorbike :: int
  truck :: int
  bus :: int
  emergency :: bool

definition Counts_default :: Counts where
  "Counts_default = \<lparr>car = 0, motorbike = 0, truck = 0, bus = 0, emergency = False\<rparr>"

record ApproachState =
  ema_score :: rat
  skip_streak :: int

record Plan =
  phase_order :: "approach list"
  green_times :: "(approach \<times> int) list"
  cycle_time :: int
  reason :: string

record Controller =
  state :: "approach \<Rightarrow> ApproachState"
  last_phase :: "approach option"

definition init :: Controller where
  "init = \<lparr>state = (\<lambda>a. \<lparr>ema_score = 0, skip_streak = 0\<rparr>), last_phase = None\<rparr>"

datatype py_error = ZeroDivisionError | KeyError

subsection \<open>Python primitives\<close>

text \<open>\<open>int(x)\<close> on a float truncates towards zero.\<close>

definition py_int :: "rat \<Rightarrow> int" where
  "py_int x = (if 0 \<le> x then \<lfloor>x\<rfloor> else \<lceil>x\<rceil>)"

text \<open>\<open>x // y\<close> on floats is the floor of the quotient, as a float.\<close>

definition py_floordiv :: "rat \<Rightarrow> rat \<Rightarrow> rat" where
  "py_floordiv x y = of_int \<lfloor>x / y\<rfloor>"

text \<open>
  \<open>sorted(xs, key=k, reverse=r)\<close> and \<open>list.sort\<close> are stable. With
  \<open>reverse=True\<close> the list is reversed, sorted stably in ascending order and
  reversed again, which keeps elements with equal keys in their original order.
\<close>

definition py_sorted :: "('a \<Rightarrow> 'k::linorder) \<Rightarrow> bool \<Rightarrow> 'a list \<Rightarrow> 'a list" where
  "py_sorted k r xs = (if r then rev (sort_key k (rev xs)) else sort_key k xs)"

text \<open>
  \<open>max(xs, key=k)\<close> on a non-empty sequence returns the first element whose key is
  maximal: the running best is replaced by a strictly greater key only.
\<close>

definition py_max_key :: "('a \<Rightarrow> 'k::linorder) \<Rightarrow> 'a \<Rightarrow> 'a list \<Rightarrow> 'a" where
  "py_max_key k x xs = fold (\<lambda>a best. if k best < k a then a else best) xs x"

text \<open>\<open>d[k]\<close> raises \<open>KeyError\<close> on a missing key; \<open>d.get(k, v)\<close> returns \<open>v\<close>.\<close>

definition lookup :: "('k \<times> 'v) list \<Rightarrow> 'k \<Rightarrow> py_error + 'v" where
  "lookup d k = (case map_of d k of None \<Rightarrow> Inl KeyError | Some v \<Rightarrow> Inr v)"

definition get_default :: "('k \<times> 'v) list \<Rightarrow> 'k \<Rightarrow> 'v \<Rightarrow> 'v" where
  "get_default d k v = (case map_of d k of None \<Rightarrow> v | Some w \<Rightarrow> w)"

definition snapshot_get :: "(approach \<rightharpoonup> Counts) \<Rightarrow> approach \<Rightarrow> Counts" where
  "snapshot_get snapshot a = (case snapshot a of None \<Rightarrow> Counts_default | Some c \<Rightarrow> c)"

text \<open>\<open>d[k] = v\<close> on an existing key keeps the key's position.\<close>

definition assign :: "('k \<times> 'v) list \<Rightarrow> 'k \<Rightarrow> 'v \<Rightarrow> ('k \<times> 'v) list" where
  "assign d k v = map (\<lambda>(k', v'). if k' = k then (k', v) else (k', v')) d"

subsection \<open>Demand estimation\<close>

definition score :: "Counts \<Rightarrow> rat" where
  "score counts =
     WEIGHT_car * of_int (car counts) +
     WEIGHT_motorbike * of_int (motorbike counts) +
     WEIGHT_truck * of_int (truck counts) +
     WEIGHT_bus * of_int (bus counts)"

definition ema_step :: "(approach \<Rightarrow> rat) \<Rightarrow> approach \<Rightarrow> Controller \<Rightarrow> Controller" where
  "ema_step raw_scores a ctl =
     ctl\<lparr>state := (state ctl)(a := (state ctl a)
        \<lparr>ema_score := ALPHA_EMA * raw_scores a + (1 - ALPHA_EMA) * ema_score (state ctl a)\<rparr>)\<rparr>"

definition update_ema :: "(approach \<Rightarrow> rat) \<Rightarrow> Controller \<Rightarrow> Controller" where
  "update_ema raw_scores ctl = fold (ema_step raw_scores) APPROACHES ctl"

definition apply_fairness :: "Controller \<Rightarrow> approach list \<Rightarrow> approach list" where
  "apply_fairness ctl order = py_sorted (\<lambda>a. skip_streak (state ctl a)) True order"

subsection \<open>Proportional split\<close>

definition total_demand :: "(approach \<times> rat) list \<Rightarrow> rat" where
  "total_demand scores = sum_list (map (\<lambda>(a, v). max 0 v) scores)"

text \<open>Lines 79 to 87: the proportional shares, then the minimum, then the maximum.\<close>

definition initial_split :: "(approach \<times> rat) list \<Rightarrow> int \<Rightarrow> (approach \<times> int) list" where
  "initial_split scores green_budget =
     (let total = total_demand scores;
          raw = map (\<lambda>(a, s). (a, py_int (of_int green_budget * (max 0 s / total)))) scores;
          raw = map (\<lambda>(a, g). (a, if g < GREEN_MIN then GREEN_MIN else g)) raw;
          raw = map (\<lambda>(a, g). (a, if g > GREEN_MAX then GREEN_MAX else g)) raw
      in raw)"

text \<open>
  Lines 96 to 104: the repair loop. The result carries the loop's variables at exit:
  the shares, the residual \<open>diff\<close> and the iteration counter \<open>i\<close>.
\<close>

function repair_loop ::
  "approach list \<Rightarrow> (approach \<times> int) list \<Rightarrow> int \<Rightarrow> nat
     \<Rightarrow> py_error + ((approach \<times> int) list \<times> int \<times> nat)" where
  "repair_loop sorted_as raw diff i =
     (if diff \<noteq> 0 \<and> i < length sorted_as * 8 then
        (case lookup raw (sorted_as ! (i mod length sorted_as)) of
           Inl e \<Rightarrow> Inl e
         | Inr g \<Rightarrow>
            if diff > 0 \<and> g < GREEN_MAX then
              repair_loop sorted_as (assign raw (sorted_as ! (i mod length sorted_as)) (g + 1))
                (diff - 1) (i + 1)
            else if diff < 0 \<and> g > GREEN_MIN then
              repair_loop sorted_as (assign raw (sorted_as ! (i mod length sorted_as)) (g - 1))
                (diff + 1) (i + 1)
            else repair_loop sorted_as raw diff (i + 1))
      else Inr (raw, diff, i))"
  by pat_completeness auto
termination
  by (relation "measure (\<lambda>(sorted_as, raw, diff, i). length sorted_as * 8 - i)") auto

text \<open>
  Lines 90 to 105: \<open>sorted(scores, key=lambda a: scores[a], reverse=(diff > 0))\<close>
  sorts the keys of \<open>scores\<close> by their values, that is the items by their second
  component.
\<close>

definition adjust_to_budget ::
  "(approach \<times> rat) list \<Rightarrow> (approach \<times> int) list \<Rightarrow> int
     \<Rightarrow> py_error + ((approach \<times> int) list \<times> int \<times> nat)" where
  "adjust_to_budget scores raw green_budget =
     (let diff = green_budget - sum_list (map snd raw) in
      if diff \<noteq> 0 then
        repair_loop (map fst (py_sorted snd (diff > 0) scores)) raw diff 0
      else Inr (raw, diff, 0))"

definition normalize_split ::
  "(approach \<times> rat) list \<Rightarrow> int \<Rightarrow> py_error + (approach \<times> int) list" where
  "normalize_split scores green_budget =
     (if total_demand scores = 0 then
        if length scores = 0 then Inl ZeroDivisionError
        else
          let base_each = max GREEN_MIN (green_budget div int (length scores))
          in Inr (map (\<lambda>(a, s). (a, min GREEN_MAX base_each)) scores)
      else
        case adjust_to_budget scores (initial_split scores green_budget) green_budget of
          Inl e \<Rightarrow> Inl e
        | Inr (raw, diff, i) \<Rightarrow> Inr raw)"

subsection \<open>The plan\<close>

definition approach_name :: "approach \<Rightarrow> string" where
  "approach_name a = (case a of N \<Rightarrow> ''N'' | E \<Rightarrow> ''E'' | S \<Rightarrow> ''S'' | W \<Rightarrow> ''W'')"

definition set_skip :: "approach \<Rightarrow> int \<Rightarrow> Controller \<Rightarrow> Controller" where
  "set_skip a v ctl = ctl\<lparr>state := (state ctl)(a := (state ctl a)\<lparr>skip_streak := v\<rparr>)\<rparr>"

text \<open>Lines 122 to 126.\<close>

definition preempt_step :: "approach \<Rightarrow> approach \<Rightarrow> Controller \<Rightarrow> Controller" where
  "preempt_step target a ctl =
     (if a = target then set_skip a 0 ctl
      else set_skip a (skip_streak (state ctl a) + 1) ctl)"

text \<open>Lines 149 to 153.\<close>

definition streak_step :: "(approach \<times> int) list \<Rightarrow> approach \<Rightarrow> Controller \<Rightarrow> Controller" where
  "streak_step green_splits a ctl =
     (if get_default green_splits a 0 > 0 then set_skip a 0 ctl
      else set_skip a (skip_streak (state ctl a) + 1) ctl)"

text \<open>Lines 155 to 157.\<close>

definition clamp_step :: "approach \<Rightarrow> Controller \<Rightarrow> Controller" where
  "clamp_step a ctl =
     (if skip_streak (state ctl a) > FAIRNESS_MAX_SKIP then set_skip a FAIRNESS_MAX_SKIP ctl
      else ctl)"

definition preempt_green :: "rat \<Rightarrow> int" where
  "preempt_green s =
     max PREEMPT_MIN_GREEN (min PREEMPT_MAX_GREEN (py_int (py_floordiv s 2 + of_int GREEN_MIN)))"

text \<open>Line 141: the clamp is taken on the float, the truncation comes last.\<close>

definition cycle_of :: "rat \<Rightarrow> int" where
  "cycle_of congestion =
     py_int (max (of_int CYCLE_MIN) (min (of_int CYCLE_MAX) (of_int CYCLE_MIN + congestion / 50)))"

text \<open>Lines 119 to 132: the preemption path, given the non-empty list of flagged approaches.\<close>

definition preempt_plan :: "Controller \<Rightarrow> approach \<Rightarrow> approach list \<Rightarrow> Plan \<times> Controller" where
  "preempt_plan ctl e es =
     (let ema_scores = (\<lambda>a. ema_score (state ctl a));
          target = py_max_key ema_scores e es;
          ctl' = fold (preempt_step target) APPROACHES ctl
      in (\<lparr>phase_order = [target],
           green_times = [(target, preempt_green (ema_scores target))],
           cycle_time = YELLOW + ALL_RED + preempt_green (ema_scores target),
           reason = ''Emergency preemption on '' @ approach_name target\<rparr>, ctl'))"

text \<open>Lines 135 to 137: the order by smoothed score, then by fairness.\<close>

definition plan_order :: "Controller \<Rightarrow> approach list" where
  "plan_order ctl =
     apply_fairness ctl (py_sorted (\<lambda>a. ema_score (state ctl a)) True APPROACHES)"

text \<open>Lines 140 to 145.\<close>

definition congestion :: "Controller \<Rightarrow> rat" where
  "congestion ctl = sum_list (map (\<lambda>a. ema_score (state ctl a)) APPROACHES)"

definition intergreens :: "Controller \<Rightarrow> int" where
  "intergreens ctl = (YELLOW + ALL_RED) * int (length (plan_order ctl))"

definition green_budget :: "Controller \<Rightarrow> int" where
  "green_budget ctl = max CYCLE_MIN (cycle_of (congestion ctl)) - intergreens ctl"

text \<open>Line 146: the argument of the split, in the plan's order.\<close>

definition split_scores :: "Controller \<Rightarrow> (approach \<times> rat) list" where
  "split_scores ctl = map (\<lambda>a. (a, ema_score (state ctl a))) (plan_order ctl)"

text \<open>Lines 135 to 164: the normal path.\<close>

definition normal_plan :: "Controller \<Rightarrow> py_error + (Plan \<times> Controller)" where
  "normal_plan ctl =
     (case normalize_split (split_scores ctl) (green_budget ctl) of
        Inl err \<Rightarrow> Inl err
      | Inr green_splits \<Rightarrow>
          Inr (\<lparr>phase_order = plan_order ctl,
                green_times = green_splits,
                cycle_time = green_budget ctl + intergreens ctl,
                reason = ''Adaptive split by EMA demand with fairness''\<rparr>,
               fold clamp_step APPROACHES (fold (streak_step green_splits) APPROACHES ctl)))"

text \<open>
  Lines 107 to 117: scoring and smoothing come first, for every approach; the presence
  of a flagged approach then selects the path.
\<close>

definition smoothed :: "Controller \<Rightarrow> (approach \<rightharpoonup> Counts) \<Rightarrow> Controller" where
  "smoothed ctl snapshot = update_ema (\<lambda>a. score (snapshot_get snapshot a)) ctl"

definition em_approaches :: "(approach \<rightharpoonup> Counts) \<Rightarrow> approach list" where
  "em_approaches snapshot = filter (\<lambda>a. emergency (snapshot_get snapshot a)) APPROACHES"

definition compute_plan ::
  "Controller \<Rightarrow> (approach \<rightharpoonup> Counts) \<Rightarrow> py_error + (Plan \<times> Controller)" where
  "compute_plan ctl snapshot =
     (case em_approaches snapshot of
        [] \<Rightarrow> normal_plan (smoothed ctl snapshot)
      | e # es \<Rightarrow> Inr (preempt_plan (smoothed ctl snapshot) e es))"

subsection \<open>Predicates and inputs of the properties\<close>

text \<open>Every share lies between the minimum and the maximum green.\<close>

definition in_range :: "(approach \<times> int) list \<Rightarrow> bool" where
  "in_range raw = list_all (\<lambda>(a, g). GREEN_MIN \<le> g \<and> g \<le> GREEN_MAX) raw"

text \<open>
  The repair of lines 90 to 105 has converged when the \<open>diff\<close> it ends with is zero.
\<close>

definition repair_converged :: "(approach \<times> rat) list \<Rightarrow> int \<Rightarrow> bool" where
  "repair_converged scores b =
     (case adjust_to_budget scores (initial_split scores b) b of
        Inl e \<Rightarrow> False
      | Inr (raw, diff, i) \<Rightarrow> diff = 0)"

text \<open>Concrete snapshots.\<close>

definition cars :: "int \<Rightarrow> bool \<Rightarrow> Counts" where
  "cars n e = \<lparr>car = n, motorbike = 0, truck = 0, bus = 0, emergency = e\<rparr>"

definition snap_mixed :: "approach \<rightharpoonup> Counts" where
  "snap_mixed = [N \<mapsto> cars 12 False, E \<mapsto> cars 10 False, S \<mapsto> cars 10 False, W \<mapsto> cars 10 False]"

definition snap_heavy :: "approach \<rightharpoonup> Counts" where
  "snap_heavy = [N \<mapsto> cars 100 False]"

subsection \<open>Successive invocations\<close>

text \<open>
  The caller's loop (lines 185 to 187) hands one snapshot after the other to the same
  controller; \<open>skips\<close> and \<open>orders\<close> read the streaks it ends with and the
  orders it emitted.
\<close>

fun run :: "Controller \<Rightarrow> (approach \<rightharpoonup> Counts) list \<Rightarrow> py_error + (Plan list \<times> Controller)" where
  "run ctl [] = Inr ([], ctl)"
| "run ctl (snapshot # rest) =
     (case compute_plan ctl snapshot of
        Inl e \<Rightarrow> Inl e
      | Inr (plan, ctl') \<Rightarrow>
          (case run ctl' rest of
             Inl e \<Rightarrow> Inl e
           | Inr (plans, ctl'') \<Rightarrow> Inr (plan # plans, ctl'')))"

definition skips :: "py_error + (Plan list \<times> Controller) \<Rightarrow> int list option" where
  "skips r = (case r of Inl e \<Rightarrow> None
              | Inr (plans, ctl) \<Rightarrow> Some (map (\<lambda>a. skip_streak (state ctl a)) APPROACHES))"

definition orders :: "py_error + (Plan list \<times> Controller) \<Rightarrow> approach list list option" where
  "orders r = (case r of Inl e \<Rightarrow> None | Inr (plans, ctl) \<Rightarrow> Some (map phase_order plans))"

definition snap_N_emergency :: "approach \<rightharpoonup> Counts" where
  "snap_N_emergency = [N \<mapsto> cars 4 True]"

definition snap_W_emergency :: "approach \<rightharpoonup> Counts" where
  "snap_W_emergency = [W \<mapsto> cars 4 True]"

definition snap_two_emergencies :: "approach \<rightharpoonup> Counts" where
  "snap_two_emergencies = [N \<mapsto> cars 3 False, E \<mapsto> cars 40 True, S \<mapsto> cars 40 True]"

text \<open>
  A controller written out as a table of its four approach states, for the states
  reached along concrete runs.
\<close>

definition st :: "rat \<Rightarrow> int \<Rightarrow> ApproachState" where
  "st x k = \<lparr>ema_score = x, skip_streak = k\<rparr>"

definition table ::
  "ApproachState \<Rightarrow> ApproachState \<Rightarrow> ApproachState \<Rightarrow> ApproachState \<Rightarrow> Controller" where
  "table n e s w = \<lparr>state = case_approach n e s w, last_phase = None\<rparr>"

text \<open>
  A stable sort in descending order of the key, in the words of the specification:
  the library's stable insertion sort on the negated key.
\<close>

definition stable_sort_desc :: "('a \<Rightarrow> 'k::linordered_ab_group_add) \<Rightarrow> 'a list \<Rightarrow> 'a list" where
  "stable_sort_desc k xs = sort_key (\<lambda>x. - k x) xs"

section \<open>Properties\<close>

subsection \<open>State updates\<close>

lemma state_update_ema:
  "state (update_ema r ctl) a =
     (state ctl a)\<lparr>ema_score := ALPHA_EMA * r a + (1 - ALPHA_EMA) * ema_score (state ctl a)\<rparr>"
  by (cases a) (simp_all add: update_ema_def APPROACHES_def ema_step_def)


lemma skip_smoothed: "skip_streak (state (smoothed ctl snapshot) a) = skip_streak (state ctl a)"
  by (simp add: smoothed_def state_update_ema)

lemma state_preempt_fold:
  "state (fold (preempt_step t) APPROACHES ctl) a =
     (state ctl a)\<lparr>skip_streak := (if a = t then 0 else skip_streak (state ctl a) + 1)\<rparr>"
  by (cases a) (simp_all add: APPROACHES_def preempt_step_def set_skip_def)

lemma state_streak_fold:
  "state (fold (streak_step g) APPROACHES ctl) a =
     (state ctl a)\<lparr>skip_streak :=
        (if get_default g a 0 > 0 then 0 else skip_streak (state ctl a) + 1)\<rparr>"
  by (cases a) (simp_all add: APPROACHES_def streak_step_def set_skip_def)

lemma state_clamp_fold:
  "state (fold clamp_step APPROACHES ctl) a =
     (state ctl a)\<lparr>skip_streak :=
        (if skip_streak (state ctl a) > FAIRNESS_MAX_SKIP then FAIRNESS_MAX_SKIP
         else skip_streak (state ctl a))\<rparr>"
  by (cases a) (simp_all add: APPROACHES_def clamp_step_def set_skip_def)

lemma snapshot_get_missing:
  "snapshot a = None \<Longrightarrow> snapshot_get (snapshot(a \<mapsto> Counts_default)) = snapshot_get snapshot"
  by (rule ext) (simp add: snapshot_get_def)

subsection \<open>Association lists and the repair loop\<close>

declare repair_loop.simps [simp del]

lemma lookup_InrD: "lookup d k = Inr v \<Longrightarrow> (k, v) \<in> set d"
  by (auto simp: lookup_def split: option.splits dest: map_of_SomeD)

lemma lookup_key: "k \<in> fst ` set d \<Longrightarrow> \<exists>v. lookup d k = Inr v"
  by (cases "map_of d k") (auto simp: lookup_def map_of_eq_None_iff)

lemma keys_assign: "map fst (assign d k v) = map fst d"
  by (induction d) (auto simp: assign_def)

lemma set_assign: "set (assign d k v) \<subseteq> insert (k, v) (set d)"
  by (induction d) (auto simp: assign_def)

lemma sum_assign:
  "distinct (map fst d) \<Longrightarrow> lookup d k = Inr g \<Longrightarrow>
     sum_list (map snd (assign d k v)) = sum_list (map snd d) - g + (v::int)"
proof (induction d)
  case Nil
  then show ?case by (simp add: lookup_def)
next
  case (Cons p d)
  obtain k' v' where p: "p = (k', v')" by (cases p)
  show ?case
  proof (cases "k' = k")
    case True
    with Cons.prems p have "g = v'" and "k \<notin> fst ` set d"
      by (auto simp: lookup_def)
    then have "assign d k v = d"
      unfolding assign_def by (intro map_idI) force
    with True p \<open>g = v'\<close> show ?thesis
      by (simp add: assign_def)
  next
    case False
    with Cons.prems p have "lookup d k = Inr g" and "distinct (map fst d)"
      by (auto simp: lookup_def)
    with Cons.IH have "sum_list (map snd (assign d k v)) = sum_list (map snd d) - g + v"
      by simp
    with False p show ?thesis
      by (simp add: assign_def)
  qed
qed

lemma in_range_assign:
  "in_range raw \<Longrightarrow> GREEN_MIN \<le> v \<Longrightarrow> v \<le> GREEN_MAX \<Longrightarrow> in_range (assign raw k v)"
  using set_assign [of raw k v] by (auto simp: in_range_def list_all_iff)

text \<open>The loop returns, with the keys it was given and within its iteration bound.\<close>

lemma repair_loop_returns:
  assumes "set sorted_as \<subseteq> fst ` set raw"
  shows "\<exists>raw' diff' i'. repair_loop sorted_as raw diff i = Inr (raw', diff', i') \<and>
           map fst raw' = map fst raw \<and> i \<le> i' \<and> (i \<le> length sorted_as * 8 \<longrightarrow> i' \<le> length sorted_as * 8)"
  using assms
proof (induction sorted_as raw diff i rule: repair_loop.induct)
  case (1 sorted_as raw diff i)
  show ?case
  proof (cases "diff \<noteq> 0 \<and> i < length sorted_as * 8")
    case False
    then show ?thesis
      by (subst repair_loop.simps) auto
  next
    case True
    define a where "a = sorted_as ! (i mod length sorted_as)"
    from True have "0 < length sorted_as"
      by (cases sorted_as) simp_all
    then have "a \<in> set sorted_as"
      by (simp add: a_def)
    with "1.prems" obtain g where g: "lookup raw a = Inr g"
      using lookup_key [of a raw] by blast
    have keys: "set sorted_as \<subseteq> fst ` set (assign raw a v)" for v
      using "1.prems" keys_assign [of raw a v] by (metis set_map)
    consider (up) "diff > 0 \<and> g < GREEN_MAX"
      | (down) "\<not> (diff > 0 \<and> g < GREEN_MAX)" "diff < 0 \<and> g > GREEN_MIN"
      | (stay) "\<not> (diff > 0 \<and> g < GREEN_MAX)" "\<not> (diff < 0 \<and> g > GREEN_MIN)"
      by blast
    then show ?thesis
    proof cases
      case up
      from "1.IH"(1) [OF True g [unfolded a_def] up keys [unfolded a_def]] True g up
      show ?thesis
        by (subst repair_loop.simps) (auto simp: a_def keys_assign)
    next
      case down
      from "1.IH"(2) [OF True g [unfolded a_def] down keys [unfolded a_def]] True g down
      show ?thesis
        by (subst repair_loop.simps) (auto simp: a_def keys_assign)
    next
      case stay
      from "1.IH"(3) [OF True g [unfolded a_def] stay "1.prems"] True g stay
      show ?thesis
        by (subst repair_loop.simps) (auto simp: a_def)
    qed
  qed
qed

text \<open>Each pass keeps \<open>diff = green_budget - sum(raw.values())\<close> and the bounds.\<close>

lemma repair_loop_invariant:
  assumes "repair_loop sorted_as raw diff i = Inr (raw', diff', i')"
    and "distinct (map fst raw)" and "in_range raw"
  shows "diff' + sum_list (map snd raw') = diff + sum_list (map snd raw) \<and> in_range raw'"
  using assms
proof (induction sorted_as raw diff i rule: repair_loop.induct)
  case (1 sorted_as raw diff i)
  show ?case
  proof (cases "diff \<noteq> 0 \<and> i < length sorted_as * 8")
    case False
    with "1.prems" show ?thesis
      by (subst (asm) repair_loop.simps) auto
  next
    case True
    define a where "a = sorted_as ! (i mod length sorted_as)"
    from "1.prems"(1) True obtain g where g: "lookup raw a = Inr g"
      by (subst (asm) repair_loop.simps) (auto simp: a_def split: sum.splits)
    then have "(a, g) \<in> set raw"
      by (rule lookup_InrD)
    with "1.prems"(3) have bounds: "GREEN_MIN \<le> g" "g \<le> GREEN_MAX"
      by (auto simp: in_range_def list_all_iff)
    have dist: "distinct (map fst (assign raw a v))" for v
      using "1.prems"(2) by (simp add: keys_assign)
    consider (up) "diff > 0 \<and> g < GREEN_MAX"
      | (down) "\<not> (diff > 0 \<and> g < GREEN_MAX)" "diff < 0 \<and> g > GREEN_MIN"
      | (stay) "\<not> (diff > 0 \<and> g < GREEN_MAX)" "\<not> (diff < 0 \<and> g > GREEN_MIN)"
      by blast
    then show ?thesis
    proof cases
      case up
      with "1.prems"(1) True g
      have run: "repair_loop sorted_as (assign raw a (g + 1)) (diff - 1) (i + 1) = Inr (raw', diff', i')"
        by (subst (asm) repair_loop.simps) (simp add: a_def)
      have "in_range (assign raw a (g + 1))"
        using "1.prems"(3) bounds up by (intro in_range_assign) auto
      from "1.IH"(1) [OF True g [unfolded a_def] up run [unfolded a_def] dist [unfolded a_def]
          this [unfolded a_def]]
      show ?thesis
        using sum_assign [OF "1.prems"(2) g, of "g + 1"] by (simp add: a_def)
    next
      case down
      with "1.prems"(1) True g
      have run: "repair_loop sorted_as (assign raw a (g - 1)) (diff + 1) (i + 1) = Inr (raw', diff', i')"
        by (subst (asm) repair_loop.simps) (simp add: a_def)
      have "in_range (assign raw a (g - 1))"
        using "1.prems"(3) bounds down by (intro in_range_assign) auto
      from "1.IH"(2) [OF True g [unfolded a_def] down run [unfolded a_def] dist [unfolded a_def]
          this [unfolded a_def]]
      show ?thesis
        using sum_assign [OF "1.prems"(2) g, of "g - 1"] by (simp add: a_def)
    next
      case stay
      with "1.prems"(1) True g
      have run: "repair_loop sorted_as raw diff (i + 1) = Inr (raw', diff', i')"
        by (subst (asm) repair_loop.simps) (auto simp: a_def split: if_splits)
      from "1.IH"(3) [OF True g [unfolded a_def] stay run "1.prems"(2,3)]
      show ?thesis .
    qed
  qed
qed

subsection \<open>The split\<close>

lemma keys_initial_split: "map fst (initial_split scores b) = map fst scores"
  by (simp add: initial_split_def Let_def case_prod_unfold comp_def)

lemma in_range_initial_split: "in_range (initial_split scores b)"
  by (auto simp: initial_split_def Let_def in_range_def list_all_iff GREEN_MIN_def GREEN_MAX_def)

lemma set_py_sorted: "set (py_sorted k r xs) = set xs"
  by (simp add: py_sorted_def)

lemma length_py_sorted: "length (py_sorted k r xs) = length xs"
  by (simp add: py_sorted_def)

lemma mset_py_sorted: "mset (py_sorted k r xs) = mset xs"
  by (simp add: py_sorted_def)

lemma distinct_py_sorted: "distinct (py_sorted k r xs) = distinct xs"
  using mset_py_sorted [of k r xs] by (metis mset_eq_imp_distinct_iff)

lemma adjust_to_budget_returns:
  assumes "map fst raw = map fst scores"
  shows "\<exists>raw' diff' i'. adjust_to_budget scores raw b = Inr (raw', diff', i') \<and>
           map fst raw' = map fst raw \<and> i' \<le> 8 * length scores"
proof (cases "b - sum_list (map snd raw) = 0")
  case True
  then show ?thesis
    by (simp add: adjust_to_budget_def)
next
  case False
  define sorted_as where
    "sorted_as = map fst (py_sorted snd (b - sum_list (map snd raw) > 0) scores)"
  have "set sorted_as = fst ` set scores" and len: "length sorted_as = length scores"
    by (simp_all add: sorted_as_def set_py_sorted length_py_sorted)
  with assms have "set sorted_as \<subseteq> fst ` set raw"
    by (metis set_map subset_refl)
  from repair_loop_returns [OF this, of "b - sum_list (map snd raw)" 0] False len
  show ?thesis
    by (auto simp: adjust_to_budget_def Let_def sorted_as_def mult.commute)
qed

lemma adjust_to_budget_invariant:
  assumes "adjust_to_budget scores raw b = Inr (raw', diff', i')"
    and "distinct (map fst raw)" and "in_range raw"
  shows "diff' = b - sum_list (map snd raw') \<and> in_range raw'"
proof (cases "b - sum_list (map snd raw) = 0")
  case True
  with assms show ?thesis
    by (auto simp: adjust_to_budget_def)
next
  case False
  with assms(1) have "repair_loop
      (map fst (py_sorted snd (b - sum_list (map snd raw) > 0) scores)) raw
      (b - sum_list (map snd raw)) 0 = Inr (raw', diff', i')"
    by (simp add: adjust_to_budget_def Let_def)
  from repair_loop_invariant [OF this assms(2,3)] show ?thesis
    by auto
qed

subsection \<open>Order, cycle and budget\<close>

lemma mset_plan_order: "mset (plan_order c) = mset APPROACHES"
  by (simp add: plan_order_def apply_fairness_def mset_py_sorted)

lemma set_plan_order: "set (plan_order c) = UNIV"
proof -
  have "set (plan_order c) = set APPROACHES"
    using mset_plan_order [of c] by (rule mset_eq_setD)
  also have "\<dots> = UNIV"
    using approach.exhaust by (auto simp: APPROACHES_def)
  finally show ?thesis .
qed

lemma length_plan_order: "length (plan_order c) = 4"
  using mset_eq_length [OF mset_plan_order [of c]] by (simp add: APPROACHES_def)

lemma distinct_plan_order: "distinct (plan_order c)"
proof -
  have "distinct APPROACHES" by (simp add: APPROACHES_def)
  then show ?thesis
    using mset_plan_order [of c] by (metis mset_eq_imp_distinct_iff)
qed

lemma intergreens_value: "intergreens c = 16"
  by (simp add: intergreens_def length_plan_order YELLOW_def ALL_RED_def)

lemma py_int_of_int: "py_int (of_int n) = n"
  by (simp add: py_int_def)

lemma cycle_of_clamp:
  "cycle_of x = max CYCLE_MIN (min CYCLE_MAX (CYCLE_MIN + \<lfloor>x / 50\<rfloor>))"
proof -
  consider (low) "x < 0" | (mid) "0 \<le> x" "x < 3000" | (high) "3000 \<le> x"
    by linarith
  then show ?thesis
  proof cases
    case low
    then have "\<lfloor>x / 50\<rfloor> < 0"
      by (simp add: floor_less_iff)
    with low show ?thesis
      by (simp add: cycle_of_def CYCLE_MIN_def CYCLE_MAX_def py_int_def max_def min_def)
  next
    case mid
    then have "0 \<le> \<lfloor>x / 50\<rfloor>" and "\<lfloor>x / 50\<rfloor> < 60"
      by (simp_all add: floor_less_iff)
    moreover have "\<lfloor>60 + x / 50\<rfloor> = 60 + \<lfloor>x / 50\<rfloor>"
      by (metis floor_add_int add.commute of_int_numeral)
    ultimately show ?thesis
      using mid by (simp add: cycle_of_def CYCLE_MIN_def CYCLE_MAX_def py_int_def max_def min_def)
  next
    case high
    then have "60 \<le> \<lfloor>x / 50\<rfloor>"
      by (simp add: le_floor_iff)
    with high show ?thesis
      by (simp add: cycle_of_def CYCLE_MIN_def CYCLE_MAX_def py_int_def max_def min_def)
  qed
qed

lemma cycle_of_bounds: "CYCLE_MIN \<le> cycle_of x" "cycle_of x \<le> CYCLE_MAX"
  by (simp_all add: cycle_of_clamp CYCLE_MIN_def CYCLE_MAX_def)

lemma green_budget_value: "green_budget c = cycle_of (congestion c) - 16"
  using cycle_of_bounds(1) [of "congestion c"]
  by (simp add: green_budget_def intergreens_value)

lemma keys_split_scores: "map fst (split_scores c) = plan_order c"
  by (simp add: split_scores_def comp_def)

lemma normalize_split_returns:
  assumes "scores \<noteq> []"
  shows "\<exists>g. normalize_split scores b = Inr g \<and> map fst g = map fst scores"
proof (cases "total_demand scores = 0")
  case True
  with assms show ?thesis
    by (simp add: normalize_split_def Let_def case_prod_unfold comp_def)
next
  case False
  have "map fst (initial_split scores b) = map fst scores"
    by (rule keys_initial_split)
  from adjust_to_budget_returns [OF this, of b] obtain raw' diff' i' where
    "adjust_to_budget scores (initial_split scores b) b = Inr (raw', diff', i')"
    and "map fst raw' = map fst scores"
    by (auto simp: keys_initial_split)
  with False show ?thesis
    by (simp add: normalize_split_def)
qed

lemma normalize_split_in_range:
  assumes "normalize_split scores b = Inr g" and "distinct (map fst scores)"
  shows "in_range g"
proof (cases "total_demand scores = 0")
  case True
  with assms(1) show ?thesis
    by (auto simp: normalize_split_def Let_def in_range_def list_all_iff GREEN_MIN_def
        GREEN_MAX_def split: if_splits)
next
  case False
  with assms(1) obtain diff i where
    "adjust_to_budget scores (initial_split scores b) b = Inr (g, diff, i)"
    by (auto simp: normalize_split_def split: sum.splits)
  from adjust_to_budget_invariant [OF this] assms(2) show ?thesis
    by (simp add: keys_initial_split in_range_initial_split)
qed

lemma total_demand_zero:
  assumes "total_demand scores = 0" and "(a, v) \<in> set scores"
  shows "v \<le> 0"
proof -
  have "\<forall>x \<in> set (map (\<lambda>(a, v). max 0 v) scores). x = 0"
    using assms(1) unfolding total_demand_def
    by (subst (asm) sum_list_nonneg_eq_0_iff) auto
  with assms(2) have "max 0 v = 0"
    by force
  then show ?thesis
    by (simp add: max_def split: if_splits)
qed

lemma congestion_nonpos:
  assumes "total_demand (split_scores c) = 0"
  shows "congestion c \<le> 0"
proof -
  have "ema_score (state c a) \<le> 0" for a
  proof -
    have "a \<in> set (plan_order c)"
      by (simp add: set_plan_order)
    then have "(a, ema_score (state c a)) \<in> set (split_scores c)"
      by (auto simp: split_scores_def)
    with assms show ?thesis
      by (rule total_demand_zero)
  qed
  then show ?thesis
    by (simp add: congestion_def APPROACHES_def add_nonpos_nonpos)
qed

lemma fallback_budget:
  assumes "total_demand (split_scores c) = 0"
  shows "green_budget c = 44"
proof -
  have "congestion c / 50 \<le> 0"
    using congestion_nonpos [OF assms] by simp
  then have "\<lfloor>congestion c / 50\<rfloor> \<le> 0"
    by (simp add: floor_le_iff)
  then show ?thesis
    by (simp add: green_budget_value cycle_of_clamp CYCLE_MIN_def CYCLE_MAX_def)
qed

lemma fallback_split:
  assumes "total_demand (split_scores c) = 0"
  shows "normalize_split (split_scores c) (green_budget c) = Inr (map (\<lambda>a. (a, 11)) (plan_order c))"
proof -
  have "length (split_scores c) = 4"
    by (simp add: split_scores_def length_plan_order)
  with assms show ?thesis
    by (simp add: normalize_split_def fallback_budget GREEN_MIN_def GREEN_MAX_def)
      (simp add: split_scores_def comp_def)
qed

subsection \<open>The two paths\<close>

lemma normal_path:
  assumes "em_approaches snapshot = []"
  obtains g where
    "normalize_split (split_scores (smoothed ctl snapshot)) (green_budget (smoothed ctl snapshot)) = Inr g"
    and "map fst g = plan_order (smoothed ctl snapshot)"
    and "compute_plan ctl snapshot =
      Inr (\<lparr>phase_order = plan_order (smoothed ctl snapshot), green_times = g,
             cycle_time = green_budget (smoothed ctl snapshot) + intergreens (smoothed ctl snapshot),
             reason = ''Adaptive split by EMA demand with fairness''\<rparr>,
           fold clamp_step APPROACHES (fold (streak_step g) APPROACHES (smoothed ctl snapshot)))"
proof -
  define c where "c = smoothed ctl snapshot"
  have "split_scores c \<noteq> []"
    using length_plan_order [of c] by (auto simp: split_scores_def)
  then obtain g where g: "normalize_split (split_scores c) (green_budget c) = Inr g"
    and "map fst g = map fst (split_scores c)"
    using normalize_split_returns by blast
  then have "map fst g = plan_order c"
    by (simp add: keys_split_scores)
  moreover from g assms have "compute_plan ctl snapshot =
      Inr (\<lparr>phase_order = plan_order c, green_times = g,
             cycle_time = green_budget c + intergreens c,
             reason = ''Adaptive split by EMA demand with fairness''\<rparr>,
           fold clamp_step APPROACHES (fold (streak_step g) APPROACHES c))"
    by (simp add: compute_plan_def normal_plan_def c_def)
  ultimately show ?thesis
    using g that by (simp add: c_def)
qed

lemma preempt_path:
  assumes "em_approaches snapshot = e # es"
  shows "compute_plan ctl snapshot = Inr (preempt_plan (smoothed ctl snapshot) e es)"
  using assms by (simp add: compute_plan_def)

lemma compute_plan_returns: "\<exists>plan ctl'. compute_plan ctl snapshot = Inr (plan, ctl')"
proof (cases "em_approaches snapshot")
  case Nil
  then show ?thesis
    by (rule normal_path) blast
next
  case (Cons e es)
  then show ?thesis
    by (cases "preempt_plan (smoothed ctl snapshot) e es") (simp add: preempt_path)
qed


subsection \<open>Claims\<close>

text \<open>
  In the statements below \<open>em_approaches snapshot = []\<close>, the test of line 118, says
  that no approach of the snapshot is flagged (lemma \<open>em_approaches_empty\<close> further
  down), and \<open>smoothed ctl snapshot\<close> is the controller after the smoothing of
  line 113, whose scores the rest of the call reads.
\<close>




text \<open>
  C1. When no approach is flagged and the repair loop of the split ends with
  \<open>diff = 0\<close> (or the split takes the equal-share branch, where no loop runs), the
  green times of the plan and the intergreens of all approaches add up to the
  \<open>cycle_time\<close> of the plan.
\<close>

theorem greens_fill_the_cycle:
  assumes "em_approaches snapshot = []"
    and "total_demand (split_scores (smoothed ctl snapshot)) = 0 \<or>
         repair_converged (split_scores (smoothed ctl snapshot)) (green_budget (smoothed ctl snapshot))"
  shows "\<exists>plan ctl'. compute_plan ctl snapshot = Inr (plan, ctl') \<and>
     sum_list (map snd (green_times plan)) + (YELLOW + ALL_RED) * int (length APPROACHES) =
       cycle_time plan"
proof -
  define c where "c = smoothed ctl snapshot"
  from assms(1) obtain g where split: "normalize_split (split_scores c) (green_budget c) = Inr g"
    and run: "compute_plan ctl snapshot =
      Inr (\<lparr>phase_order = plan_order c, green_times = g,
             cycle_time = green_budget c + intergreens c,
             reason = ''Adaptive split by EMA demand with fairness''\<rparr>,
           fold clamp_step APPROACHES (fold (streak_step g) APPROACHES c))"
    unfolding c_def by (rule normal_path)
  have "sum_list (map snd g) = green_budget c"
  proof (cases "total_demand (split_scores c) = 0")
    case True
    then have "g = map (\<lambda>a. (a, 11)) (plan_order c)"
      using split by (simp add: fallback_split)
    then have "sum_list (map snd g) = 44"
      by (simp add: comp_def sum_list_triv length_plan_order)
    with True show ?thesis
      by (simp add: fallback_budget)
  next
    case False
    with split obtain diff i where adj:
      "adjust_to_budget (split_scores c) (initial_split (split_scores c) (green_budget c))
         (green_budget c) = Inr (g, diff, i)"
      by (auto simp: normalize_split_def split: sum.splits)
    with assms(2) False have "diff = 0"
      by (simp add: repair_converged_def c_def)
    moreover have "distinct (map fst (initial_split (split_scores c) (green_budget c)))"
      by (simp add: keys_initial_split keys_split_scores distinct_plan_order)
    ultimately show ?thesis
      using adjust_to_budget_invariant [OF adj] by (simp add: in_range_initial_split)
  qed
  then show ?thesis
    using run by (simp add: intergreens_value APPROACHES_def YELLOW_def ALL_RED_def)
qed

theorem greens_fill_the_cycle_witness:
  "em_approaches snap_mixed = [] \<and>
   total_demand (split_scores (smoothed init snap_mixed)) \<noteq> 0 \<and>
   repair_converged (split_scores (smoothed init snap_mixed)) (green_budget (smoothed init snap_mixed)) \<and>
   (\<exists>plan ctl'. compute_plan init snap_mixed = Inr (plan, ctl') \<and>
      sum_list (map snd (green_times plan)) + (YELLOW + ALL_RED) * int (length APPROACHES) =
        cycle_time plan)"
proof -
  have h1: "em_approaches snap_mixed = []"
    by code_simp
  have h2: "repair_converged (split_scores (smoothed init snap_mixed)) (green_budget (smoothed init snap_mixed))"
    by code_simp
  have h3: "total_demand (split_scores (smoothed init snap_mixed)) \<noteq> 0"
    by code_simp
  from greens_fill_the_cycle [OF h1, of init] h1 h2 h3 show ?thesis
    by blast
qed

text \<open>
  C9. A snapshot without an entry for an approach gives the same plan and the same
  controller state as the snapshot extended by an entry with zero counts and no
  emergency for that approach.
\<close>

theorem missing_entry_is_default:
  assumes "snapshot a = None"
  shows "compute_plan ctl (snapshot(a \<mapsto> Counts_default)) = compute_plan ctl snapshot"
proof -
  have "snapshot_get (snapshot(a \<mapsto> Counts_default)) = snapshot_get snapshot"
    using assms by (rule snapshot_get_missing)
  then have "smoothed ctl (snapshot(a \<mapsto> Counts_default)) = smoothed ctl snapshot"
    and "em_approaches (snapshot(a \<mapsto> Counts_default)) = em_approaches snapshot"
    by (simp_all add: em_approaches_def smoothed_def)
  then show ?thesis
    unfolding compute_plan_def by (simp cong: list.case_cong)
qed

theorem missing_entry_is_default_witness:
  "snap_heavy E = None \<and>
   compute_plan init (snap_heavy(E \<mapsto> Counts_default)) = compute_plan init snap_heavy"
proof -
  have h: "snap_heavy E = None"
    by (simp add: snap_heavy_def)
  from missing_entry_is_default [of snap_heavy E init] h show ?thesis
    by simp
qed

lemma in_range_map_of:
  assumes "in_range g" and "map_of g a = Some v"
  shows "GREEN_MIN \<le> v \<and> v \<le> GREEN_MAX"
  using assms map_of_SomeD [of g a v] by (auto simp: in_range_def list_all_iff)

lemma normal_greens:
  assumes "normalize_split (split_scores c) (green_budget c) = Inr g"
  shows "\<exists>v. map_of g a = Some v \<and> GREEN_MIN \<le> v \<and> v \<le> GREEN_MAX"
proof -
  have "distinct (map fst (split_scores c))"
    by (simp add: keys_split_scores distinct_plan_order)
  with assms have range: "in_range g"
    by (rule normalize_split_in_range)
  have "split_scores c \<noteq> []"
    using length_plan_order [of c] by (auto simp: split_scores_def)
  from normalize_split_returns [OF this, of "green_budget c"] assms
  have "map fst g = plan_order c"
    by (simp add: keys_split_scores)
  then have "a \<in> fst ` set g"
    by (metis set_map set_plan_order UNIV_I)
  then obtain v where "map_of g a = Some v"
    by (cases "map_of g a") (auto simp: map_of_eq_None_iff)
  with range show ?thesis
    using in_range_map_of by blast
qed

text \<open>
  C3. When no approach is flagged and the split does not take the equal-share branch
  (the total demand is not zero), every approach of the plan has a green time and
  every green time lies between \<open>GREEN_MIN\<close> and \<open>GREEN_MAX\<close>.
\<close>

theorem greens_within_bounds:
  assumes "em_approaches snapshot = []"
    and "total_demand (split_scores (smoothed ctl snapshot)) \<noteq> 0"
  shows "\<exists>plan ctl'. compute_plan ctl snapshot = Inr (plan, ctl') \<and>
     map fst (green_times plan) = phase_order plan \<and>
     list_all (\<lambda>(a, g). GREEN_MIN \<le> g \<and> g \<le> GREEN_MAX) (green_times plan)"
proof -
  define c where "c = smoothed ctl snapshot"
  from assms(1) obtain g where split: "normalize_split (split_scores c) (green_budget c) = Inr g"
    and keys: "map fst g = plan_order c"
    and run: "compute_plan ctl snapshot =
      Inr (\<lparr>phase_order = plan_order c, green_times = g,
             cycle_time = green_budget c + intergreens c,
             reason = ''Adaptive split by EMA demand with fairness''\<rparr>,
           fold clamp_step APPROACHES (fold (streak_step g) APPROACHES c))"
    unfolding c_def by (rule normal_path)
  have "distinct (map fst (split_scores c))"
    by (simp add: keys_split_scores distinct_plan_order)
  with split have "in_range g"
    by (rule normalize_split_in_range)
  with keys run show ?thesis
    by (simp add: in_range_def)
qed

theorem greens_within_bounds_witness:
  "em_approaches snap_heavy = [] \<and>
   total_demand (split_scores (smoothed init snap_heavy)) \<noteq> 0 \<and>
   (\<exists>plan ctl'. compute_plan init snap_heavy = Inr (plan, ctl') \<and>
      map fst (green_times plan) = phase_order plan \<and>
      list_all (\<lambda>(a, g). GREEN_MIN \<le> g \<and> g \<le> GREEN_MAX) (green_times plan))"
proof -
  have h1: "em_approaches snap_heavy = []"
    by code_simp
  have h2: "total_demand (split_scores (smoothed init snap_heavy)) \<noteq> 0"
    by code_simp
  from greens_within_bounds [OF h1 h2] h1 h2 show ?thesis
    by blast
qed

text \<open>
  C10. With \<open>GREEN_MIN = 8\<close>, a call without a flagged approach gives every
  approach at least \<open>GREEN_MIN\<close> seconds of green, in either branch of the split, so
  the test of line 150 succeeds for every approach and every streak is reset to zero;
  hence a streak is positive after a call only if the call took the preemption path.
\<close>

theorem normal_path_serves_everyone:
  "\<exists>plan ctl'. compute_plan ctl snapshot = Inr (plan, ctl') \<and>
     (em_approaches snapshot = [] \<longrightarrow>
        (\<forall>a. \<exists>g. map_of (green_times plan) a = Some g \<and> GREEN_MIN \<le> g \<and> 0 < g) \<and>
        (\<forall>a. 0 < get_default (green_times plan) a 0) \<and>
        (\<forall>a. skip_streak (state ctl' a) = 0)) \<and>
     (\<forall>a. 0 < skip_streak (state ctl' a) \<longrightarrow> em_approaches snapshot \<noteq> [])"
proof (cases "em_approaches snapshot")
  case Nil
  define c where "c = smoothed ctl snapshot"
  from Nil obtain g where split: "normalize_split (split_scores c) (green_budget c) = Inr g"
    and run: "compute_plan ctl snapshot =
      Inr (\<lparr>phase_order = plan_order c, green_times = g,
             cycle_time = green_budget c + intergreens c,
             reason = ''Adaptive split by EMA demand with fairness''\<rparr>,
           fold clamp_step APPROACHES (fold (streak_step g) APPROACHES c))"
    unfolding c_def by (rule normal_path)
  have greens: "\<exists>v. map_of g a = Some v \<and> GREEN_MIN \<le> v \<and> 0 < v" for a
    using normal_greens [OF split, of a] by (auto simp: GREEN_MIN_def)
  have pos: "0 < get_default g a 0" for a
    using greens [of a] by (auto simp: get_default_def)
  then have "skip_streak (state (fold clamp_step APPROACHES (fold (streak_step g) APPROACHES c)) a) = 0" for a
    by (simp add: state_clamp_fold state_streak_fold FAIRNESS_MAX_SKIP_def)
  with run greens pos show ?thesis
    by simp
next
  case (Cons e es)
  then show ?thesis
    using compute_plan_returns [of ctl snapshot] by auto
qed

theorem normal_path_serves_everyone_witness:
  "em_approaches Map.empty = [] \<and>
   (\<exists>plan ctl'. compute_plan init Map.empty = Inr (plan, ctl') \<and>
      (\<forall>a. \<exists>g. map_of (green_times plan) a = Some g \<and> GREEN_MIN \<le> g \<and> 0 < g) \<and>
      (\<forall>a. skip_streak (state ctl' a) = 0))"
proof -
  have h: "em_approaches Map.empty = []"
    by code_simp
  from normal_path_serves_everyone [of init Map.empty] h show ?thesis
    by auto
qed


subsection \<open>Preemption\<close>

lemma py_max_key_first:
  "\<exists>pre post. x # xs = pre @ py_max_key k x xs # post \<and>
     (\<forall>a\<in>set pre. k a < k (py_max_key k x xs)) \<and>
     (\<forall>a\<in>set post. k a \<le> k (py_max_key k x xs))"
proof (induction xs rule: rev_induct)
  case Nil
  have "[x] = [] @ x # []"
    by simp
  then show ?case
    unfolding py_max_key_def by (metis empty_iff empty_set fold_simps(1))
next
  case (snoc y ys)
  define m where "m = py_max_key k x ys"
  from snoc obtain pre post where split: "x # ys = pre @ m # post"
    and pre: "\<forall>a\<in>set pre. k a < k m" and post: "\<forall>a\<in>set post. k a \<le> k m"
    unfolding m_def by blast
  have step: "py_max_key k x (ys @ [y]) = (if k m < k y then y else m)"
    by (simp add: py_max_key_def m_def)
  show ?case
  proof (cases "k m < k y")
    case True
    have "\<forall>a\<in>set (x # ys). k a < k y"
    proof
      fix a assume "a \<in> set (x # ys)"
      then have "a \<in> set pre \<or> a = m \<or> a \<in> set post"
        unfolding split by auto
      with pre post True show "k a < k y"
        by (auto intro: less_trans le_less_trans)
    qed
    moreover have "x # ys @ [y] = (x # ys) @ y # []"
      by simp
    ultimately show ?thesis
      unfolding step using True by (metis empty_iff list.set(1))
  next
    case False
    have "x # ys @ [y] = pre @ m # (post @ [y])"
      using split by simp
    moreover from False post have "\<forall>a\<in>set (post @ [y]). k a \<le> k m"
      by auto
    ultimately show ?thesis
      unfolding step using False pre by (metis (full_types))
  qed
qed

lemma filter_split:
  assumes "filter P xs = pre @ t # post"
  shows "\<exists>before after. xs = before @ t # after \<and> P t \<and>
           filter P before = pre \<and> filter P after = post"
  using assms
proof (induction pre arbitrary: xs)
  case Nil
  then obtain us vs where "xs = us @ t # vs" and "\<forall>u\<in>set us. \<not> P u" and "P t"
    and "post = filter P vs"
    by (auto simp: filter_eq_Cons_iff)
  moreover from this have "filter P us = []"
    by (simp add: filter_empty_conv)
  ultimately show ?case
    by blast
next
  case (Cons p pre)
  then obtain us vs where xs: "xs = us @ p # vs" and us: "\<forall>u\<in>set us. \<not> P u" and "P p"
    and "pre @ t # post = filter P vs"
    by (auto simp: filter_eq_Cons_iff)
  with Cons.IH [of vs] obtain before after where vs: "vs = before @ t # after" and "P t"
    and "filter P before = pre" and "filter P after = post"
    by metis
  moreover from us have "filter P us = []"
    by (simp add: filter_empty_conv)
  ultimately have "xs = (us @ p # before) @ t # after"
    and "filter P (us @ p # before) = p # pre"
    using xs \<open>P p\<close> by simp_all
  with \<open>P t\<close> \<open>filter P after = post\<close> show ?case
    by blast
qed

lemma preempt_green_clamp:
  "preempt_green s = max PREEMPT_MIN_GREEN (min PREEMPT_MAX_GREEN (\<lfloor>s / 2\<rfloor> + GREEN_MIN))"
proof -
  have "py_floordiv s 2 + of_int GREEN_MIN = of_int (\<lfloor>s / 2\<rfloor> + GREEN_MIN)"
    by (simp add: py_floordiv_def)
  then show ?thesis
    by (simp only: preempt_green_def py_int_of_int)
qed

lemma preempt_green_bounds:
  "PREEMPT_MIN_GREEN \<le> preempt_green s" "preempt_green s \<le> PREEMPT_MAX_GREEN"
  by (simp_all add: preempt_green_clamp PREEMPT_MIN_GREEN_def PREEMPT_MAX_GREEN_def)

lemma em_approaches_empty:
  "em_approaches snapshot = [] \<longleftrightarrow> (\<forall>a. \<not> emergency (snapshot_get snapshot a))"
proof -
  have "set APPROACHES = UNIV"
    using approach.exhaust by (auto simp: APPROACHES_def)
  then show ?thesis
    by (simp add: em_approaches_def filter_empty_conv)
qed

lemma preempt_target:
  assumes "em_approaches snapshot = e # es"
    and "t = py_max_key (\<lambda>a. ema_score (state c a)) e es"
  shows "\<exists>before after. APPROACHES = before @ t # after \<and>
     emergency (snapshot_get snapshot t) \<and>
     (\<forall>b\<in>set before. emergency (snapshot_get snapshot b) \<longrightarrow>
         ema_score (state c b) < ema_score (state c t)) \<and>
     (\<forall>b\<in>set after. emergency (snapshot_get snapshot b) \<longrightarrow>
         ema_score (state c b) \<le> ema_score (state c t))"
proof -
  define k where "k = (\<lambda>a. ema_score (state c a))"
  define P where "P = (\<lambda>a. emergency (snapshot_get snapshot a))"
  obtain pre post where "e # es = pre @ t # post"
    and pre: "\<forall>a\<in>set pre. k a < k t" and post: "\<forall>a\<in>set post. k a \<le> k t"
    using py_max_key_first [of e es k] unfolding assms(2) k_def by blast
  with assms(1) have "filter P APPROACHES = pre @ t # post"
    by (simp add: em_approaches_def P_def)
  from filter_split [OF this] obtain before after where split: "APPROACHES = before @ t # after"
    and t: "P t" and before: "filter P before = pre" and after: "filter P after = post"
    by blast
  have "\<forall>b\<in>set before. P b \<longrightarrow> k b < k t"
    using pre before by auto
  moreover have "\<forall>b\<in>set after. P b \<longrightarrow> k b \<le> k t"
    using post after by auto
  ultimately show ?thesis
    using split t unfolding P_def k_def by blast
qed

text \<open>
  C2. When an approach is flagged, \<open>compute_plan\<close> returns a plan whose order is
  one flagged approach: every flagged approach declared before it has a strictly
  smaller smoothed score, every flagged approach declared after it has a smaller or
  equal one. Its green time is
  \<open>clamp(PREEMPT_MIN_GREEN, PREEMPT_MAX_GREEN, floor(score / 2) + GREEN_MIN)\<close> of its
  smoothed score, hence within the two bounds, and the cycle time is
  \<open>YELLOW + ALL_RED\<close> plus that green time.
\<close>

theorem preemption_plan:
  assumes "emergency (snapshot_get snapshot a)"
  shows "\<exists>plan ctl' target before after g.
     compute_plan ctl snapshot = Inr (plan, ctl') \<and>
     phase_order plan = [target] \<and>
     emergency (snapshot_get snapshot target) \<and>
     APPROACHES = before @ target # after \<and>
     (\<forall>b\<in>set before. emergency (snapshot_get snapshot b) \<longrightarrow>
        ema_score (state ctl' b) < ema_score (state ctl' target)) \<and>
     (\<forall>b\<in>set after. emergency (snapshot_get snapshot b) \<longrightarrow>
        ema_score (state ctl' b) \<le> ema_score (state ctl' target)) \<and>
     green_times plan = [(target, g)] \<and>
     g = max PREEMPT_MIN_GREEN
           (min PREEMPT_MAX_GREEN (\<lfloor>ema_score (state ctl' target) / 2\<rfloor> + GREEN_MIN)) \<and>
     PREEMPT_MIN_GREEN \<le> g \<and> g \<le> PREEMPT_MAX_GREEN \<and>
     cycle_time plan = YELLOW + ALL_RED + g"
proof -
  from assms have "em_approaches snapshot \<noteq> []"
    by (auto simp: em_approaches_empty)
  then obtain e es where em: "em_approaches snapshot = e # es"
    by (cases "em_approaches snapshot") auto
  define c where "c = smoothed ctl snapshot"
  define t where "t = py_max_key (\<lambda>a. ema_score (state c a)) e es"
  define c' where "c' = fold (preempt_step t) APPROACHES c"
  define g where "g = preempt_green (ema_score (state c t))"
  have same: "ema_score (state c' b) = ema_score (state c b)" for b
    by (simp add: c'_def state_preempt_fold)
  define plan where "plan = \<lparr>phase_order = [t], green_times = [(t, g)],
      cycle_time = YELLOW + ALL_RED + g,
      reason = ''Emergency preemption on '' @ approach_name t\<rparr>"
  have run: "compute_plan ctl snapshot = Inr (plan, c')"
    using em by (simp add: preempt_path preempt_plan_def Let_def c_def t_def c'_def g_def plan_def)
  obtain before after where "APPROACHES = before @ t # after"
    and "emergency (snapshot_get snapshot t)"
    and "\<forall>b\<in>set before. emergency (snapshot_get snapshot b) \<longrightarrow>
           ema_score (state c' b) < ema_score (state c' t)"
    and "\<forall>b\<in>set after. emergency (snapshot_get snapshot b) \<longrightarrow>
           ema_score (state c' b) \<le> ema_score (state c' t)"
    using preempt_target [OF em t_def] unfolding same by metis
  moreover have "g = max PREEMPT_MIN_GREEN
           (min PREEMPT_MAX_GREEN (\<lfloor>ema_score (state c' t) / 2\<rfloor> + GREEN_MIN))"
    by (simp add: g_def preempt_green_clamp same)
  moreover have "PREEMPT_MIN_GREEN \<le> g" and "g \<le> PREEMPT_MAX_GREEN"
    by (simp_all add: g_def preempt_green_bounds)
  ultimately have "compute_plan ctl snapshot = Inr (plan, c') \<and>
     phase_order plan = [t] \<and>
     emergency (snapshot_get snapshot t) \<and>
     APPROACHES = before @ t # after \<and>
     (\<forall>b\<in>set before. emergency (snapshot_get snapshot b) \<longrightarrow>
        ema_score (state c' b) < ema_score (state c' t)) \<and>
     (\<forall>b\<in>set after. emergency (snapshot_get snapshot b) \<longrightarrow>
        ema_score (state c' b) \<le> ema_score (state c' t)) \<and>
     green_times plan = [(t, g)] \<and>
     g = max PREEMPT_MIN_GREEN
           (min PREEMPT_MAX_GREEN (\<lfloor>ema_score (state c' t) / 2\<rfloor> + GREEN_MIN)) \<and>
     PREEMPT_MIN_GREEN \<le> g \<and> g \<le> PREEMPT_MAX_GREEN \<and>
     cycle_time plan = YELLOW + ALL_RED + g"
    using run by (simp add: plan_def)
  then show ?thesis
    by (intro exI)
qed

theorem preemption_plan_witness:
  "emergency (snapshot_get snap_two_emergencies S) \<and>
   (\<exists>plan ctl'. compute_plan init snap_two_emergencies = Inr (plan, ctl') \<and>
      phase_order plan = [E] \<and> green_times plan = [(E, 18)] \<and> cycle_time plan = 22)"
proof -
  have h: "emergency (snapshot_get snap_two_emergencies S)"
    by code_simp
  have "case compute_plan init snap_two_emergencies of Inl e \<Rightarrow> False
        | Inr (plan, ctl') \<Rightarrow>
            phase_order plan = [E] \<and> green_times plan = [(E, 18)] \<and> cycle_time plan = 22"
    by code_simp
  moreover from preemption_plan [OF h, of init] obtain plan ctl' where
    "compute_plan init snap_two_emergencies = Inr (plan, ctl')"
    by blast
  ultimately show ?thesis
    using h by simp
qed

subsection \<open>Concrete runs\<close>

lemma init_table: "init = table (st 0 0) (st 0 0) (st 0 0) (st 0 0)"
  by (auto simp: init_def table_def st_def split: approach.split)

lemma compute_plan_tableI:
  assumes "case compute_plan c snapshot of
             Inl err \<Rightarrow> False
           | Inr (p, c') \<Rightarrow> p = plan \<and> last_phase c' = None \<and>
               state c' N = n \<and> state c' E = e \<and> state c' S = s \<and> state c' W = w"
  shows "compute_plan c snapshot = Inr (plan, table n e s w)"
proof (cases "compute_plan c snapshot")
  case (Inl err)
  with assms show ?thesis by simp
next
  case (Inr r)
  obtain p c' where r: "r = (p, c')" by (cases r)
  with assms Inr have "p = plan" and "last_phase c' = None"
    and "state c' N = n" "state c' E = e" "state c' S = s" "state c' W = w"
    by simp_all
  then have "state c' = case_approach n e s w"
    by (auto split: approach.split)
  with \<open>last_phase c' = None\<close> have "c' = table n e s w"
    by (simp add: table_def)
  with Inr r \<open>p = plan\<close> show ?thesis by simp
qed

lemma step_N1:
  "compute_plan (table (st 0 0) (st 0 0) (st 0 0) (st 0 0)) snap_N_emergency =
     Inr (\<lparr>phase_order = [N], green_times = [(N, 12)], cycle_time = 16, reason = ''Emergency preemption on N''\<rparr>,
          table (st 2 0) (st 0 1) (st 0 1) (st 0 1))"
  by (rule compute_plan_tableI) code_simp

lemma step_N2:
  "compute_plan (table (st 2 0) (st 0 1) (st 0 1) (st 0 1)) snap_N_emergency =
     Inr (\<lparr>phase_order = [N], green_times = [(N, 12)], cycle_time = 16, reason = ''Emergency preemption on N''\<rparr>,
          table (st 3 0) (st 0 2) (st 0 2) (st 0 2))"
  by (rule compute_plan_tableI) code_simp

lemma step_N3:
  "compute_plan (table (st 3 0) (st 0 2) (st 0 2) (st 0 2)) snap_N_emergency =
     Inr (\<lparr>phase_order = [N], green_times = [(N, 12)], cycle_time = 16, reason = ''Emergency preemption on N''\<rparr>,
          table (st (7 / 2) 0) (st 0 3) (st 0 3) (st 0 3))"
  by (rule compute_plan_tableI) code_simp


lemma step_N3_mixed:
  "compute_plan (table (st (7 / 2) 0) (st 0 3) (st 0 3) (st 0 3)) snap_mixed =
     Inr (\<lparr>phase_order = [E, S, W, N], green_times = [(E, 10), (S, 10), (W, 9), (N, 15)], cycle_time = 60, reason = ''Adaptive split by EMA demand with fairness''\<rparr>,
          table (st (31 / 4) 0) (st 5 0) (st 5 0) (st 5 0))"
  by (rule compute_plan_tableI) code_simp

lemma step_W3:
  "compute_plan (table (st 3 0) (st 0 2) (st 0 2) (st 0 2)) snap_W_emergency =
     Inr (\<lparr>phase_order = [W], green_times = [(W, 12)], cycle_time = 16, reason = ''Emergency preemption on W''\<rparr>,
          table (st (3 / 2) 1) (st 0 3) (st 0 3) (st 2 0))"
  by (rule compute_plan_tableI) code_simp

lemma step_W4:
  "compute_plan (table (st (3 / 2) 1) (st 0 3) (st 0 3) (st 2 0)) snap_W_emergency =
     Inr (\<lparr>phase_order = [W], green_times = [(W, 12)], cycle_time = 16, reason = ''Emergency preemption on W''\<rparr>,
          table (st (3 / 4) 2) (st 0 4) (st 0 4) (st 3 0))"
  by (rule compute_plan_tableI) code_simp

lemma step_W5:
  "compute_plan (table (st (3 / 4) 2) (st 0 4) (st 0 4) (st 3 0)) snap_W_emergency =
     Inr (\<lparr>phase_order = [W], green_times = [(W, 12)], cycle_time = 16, reason = ''Emergency preemption on W''\<rparr>,
          table (st (3 / 8) 3) (st 0 5) (st 0 5) (st (7 / 2) 0))"
  by (rule compute_plan_tableI) code_simp

lemma step_W5_mixed:
  "compute_plan (table (st (3 / 8) 3) (st 0 5) (st 0 5) (st (7 / 2) 0)) snap_mixed =
     Inr (\<lparr>phase_order = [E, S, N, W], green_times = [(E, 10), (S, 9), (N, 12), (W, 13)], cycle_time = 60, reason = ''Adaptive split by EMA demand with fairness''\<rparr>,
          table (st (99 / 16) 0) (st 5 0) (st 5 0) (st (27 / 4) 0))"
  by (rule compute_plan_tableI) code_simp

subsection \<open>Streaks\<close>







subsection \<open>Sorting\<close>

lemma sorted_desc_rev:
  fixes k :: "'a \<Rightarrow> 'k::linordered_ab_group_add"
  assumes "sorted (map k xs)"
  shows "sorted (map (\<lambda>x. - k x) (rev xs))"
  using assms by (simp add: sorted_wrt_map sorted_wrt_rev rev_map [symmetric])

lemma py_sorted_reverse:
  fixes k :: "'a \<Rightarrow> 'k::linordered_ab_group_add"
  shows "py_sorted k True xs = stable_sort_desc k xs"
proof -
  have "sort_key (\<lambda>x. - k x) xs = rev (sort_key k (rev xs))"
  proof (rule properties_for_sort_key)
    show "mset (rev (sort_key k (rev xs))) = mset xs"
      by simp
    show "sorted (map (\<lambda>x. - k x) (rev (sort_key k (rev xs))))"
      by (rule sorted_desc_rev) simp
    fix y
    have "filter (\<lambda>x. k y = k x) (sort_key k (rev xs)) = filter (\<lambda>x. k y = k x) (rev xs)"
      using sort_key_stable [of k "k y" "rev xs"] by (simp add: eq_commute)
    then have "rev (filter (\<lambda>x. k y = k x) (sort_key k (rev xs))) = filter (\<lambda>x. k y = k x) xs"
      by (simp add: rev_filter)
    then show "filter (\<lambda>x. - k y = - k x) (rev (sort_key k (rev xs))) =
        filter (\<lambda>x. - k y = - k x) xs"
      by (simp add: rev_filter)
  qed
  then show ?thesis
    by (simp add: py_sorted_def stable_sort_desc_def)
qed

lemma plan_order_stable:
  "plan_order c =
     stable_sort_desc (\<lambda>a. skip_streak (state c a))
       (stable_sort_desc (\<lambda>a. ema_score (state c a)) APPROACHES)"
  by (simp add: plan_order_def apply_fairness_def py_sorted_reverse)

lemma sorted_desc_prefix:
  fixes k :: "'a \<Rightarrow> 'k::linordered_ab_group_add"
  assumes "stable_sort_desc k xs = pre @ a # post" and "b \<in> set pre"
  shows "k a \<le> k b"
proof -
  have "sorted (map (\<lambda>x. - k x) (pre @ a # post))"
    using assms(1) [symmetric] by (simp add: stable_sort_desc_def)
  with assms(2) have "- k b \<le> - k a"
    by (auto simp: sorted_append)
  then show ?thesis
    by simp
qed

lemma ceiling_is_first:
  assumes "skip_streak (state c a) = FAIRNESS_MAX_SKIP"
    and "\<forall>b. skip_streak (state c b) \<le> FAIRNESS_MAX_SKIP"
  shows "\<exists>pre post. plan_order c = pre @ a # post \<and>
           (\<forall>b\<in>set pre. skip_streak (state c b) = FAIRNESS_MAX_SKIP)"
proof -
  have "a \<in> set (plan_order c)"
    by (simp add: set_plan_order)
  then obtain pre post where split: "plan_order c = pre @ a # post"
    by (auto simp: in_set_conv_decomp)
  have "skip_streak (state c b) = FAIRNESS_MAX_SKIP" if "b \<in> set pre" for b
  proof -
    from split have "stable_sort_desc (\<lambda>a. skip_streak (state c a))
        (stable_sort_desc (\<lambda>a. ema_score (state c a)) APPROACHES) = pre @ a # post"
      by (simp add: plan_order_stable)
    from sorted_desc_prefix [OF this that] assms show ?thesis
      by (simp add: order_antisym)
  qed
  with split show ?thesis
    by blast
qed

text \<open>
  C6, as amended. Without a flagged approach the emitted order is the stable sort, by
  streak descending, of the approaches stably sorted by smoothed score descending
  (declaration order breaking ties). Hence an approach whose streak is at
  \<open>FAIRNESS_MAX_SKIP\<close> and whose demand in the snapshot is not zero comes first or
  tied-first, provided no streak exceeds \<open>FAIRNESS_MAX_SKIP\<close>: every approach
  ordered before it has the same streak. The streaks are those the controller holds
  when the call starts; the proof does not need the demand.
\<close>

theorem fairness_order:
  assumes "em_approaches snapshot = []"
  shows "\<exists>plan ctl'. compute_plan ctl snapshot = Inr (plan, ctl') \<and>
     phase_order plan =
       stable_sort_desc (\<lambda>a. skip_streak (state ctl a))
         (stable_sort_desc (\<lambda>a. ema_score (state ctl' a)) APPROACHES) \<and>
     (\<forall>a. skip_streak (state ctl a) = FAIRNESS_MAX_SKIP \<and>
           score (snapshot_get snapshot a) \<noteq> 0 \<and>
           (\<forall>b. skip_streak (state ctl b) \<le> FAIRNESS_MAX_SKIP) \<longrightarrow>
        (\<exists>pre post. phase_order plan = pre @ a # post \<and>
           (\<forall>b\<in>set pre. skip_streak (state ctl b) = FAIRNESS_MAX_SKIP)))"
proof -
  define c where "c = smoothed ctl snapshot"
  from assms obtain g where run: "compute_plan ctl snapshot =
      Inr (\<lparr>phase_order = plan_order c, green_times = g,
             cycle_time = green_budget c + intergreens c,
             reason = ''Adaptive split by EMA demand with fairness''\<rparr>,
           fold clamp_step APPROACHES (fold (streak_step g) APPROACHES c))"
    unfolding c_def by (rule normal_path)
  define plan where "plan = \<lparr>phase_order = plan_order c, green_times = g,
      cycle_time = green_budget c + intergreens c,
      reason = ''Adaptive split by EMA demand with fairness''\<rparr>"
  define c' where "c' = fold clamp_step APPROACHES (fold (streak_step g) APPROACHES c)"
  have skip: "(\<lambda>a. skip_streak (state c a)) = (\<lambda>a. skip_streak (state ctl a))"
    by (simp add: c_def skip_smoothed)
  have ema: "(\<lambda>a. ema_score (state c a)) = (\<lambda>a. ema_score (state c' a))"
    by (simp add: c'_def state_clamp_fold state_streak_fold)
  have order: "phase_order plan =
      stable_sort_desc (\<lambda>a. skip_streak (state ctl a))
        (stable_sort_desc (\<lambda>a. ema_score (state c' a)) APPROACHES)"
    using plan_order_stable [of c] unfolding skip ema by (simp add: plan_def)
  have first: "\<exists>pre post. phase_order plan = pre @ a # post \<and>
      (\<forall>b\<in>set pre. skip_streak (state ctl b) = FAIRNESS_MAX_SKIP)"
    if "skip_streak (state ctl a) = FAIRNESS_MAX_SKIP"
      and "\<forall>b. skip_streak (state ctl b) \<le> FAIRNESS_MAX_SKIP" for a
    using ceiling_is_first [of c a] that by (simp add: c_def skip_smoothed plan_def)
  have "compute_plan ctl snapshot = Inr (plan, c')"
    using run by (simp add: plan_def c'_def)
  with order first show ?thesis
    by blast
qed

theorem fairness_order_witness:
  "run init [snap_N_emergency, snap_N_emergency, snap_N_emergency] =
     Inr (replicate 3 \<lparr>phase_order = [N], green_times = [(N, 12)], cycle_time = 16,
            reason = ''Emergency preemption on N''\<rparr>,
          table (st (7 / 2) 0) (st 0 3) (st 0 3) (st 0 3)) \<and>
   em_approaches snap_mixed = [] \<and>
   skip_streak (state (table (st (7 / 2) 0) (st 0 3) (st 0 3) (st 0 3)) W) = FAIRNESS_MAX_SKIP \<and>
   score (snapshot_get snap_mixed W) \<noteq> 0 \<and>
   (\<forall>b. skip_streak (state (table (st (7 / 2) 0) (st 0 3) (st 0 3) (st 0 3)) b)
          \<le> FAIRNESS_MAX_SKIP) \<and>
   (\<exists>plan ctl' pre post.
      compute_plan (table (st (7 / 2) 0) (st 0 3) (st 0 3) (st 0 3)) snap_mixed = Inr (plan, ctl') \<and>
      phase_order plan = pre @ W # post \<and>
      (\<forall>b\<in>set pre. skip_streak (state (table (st (7 / 2) 0) (st 0 3) (st 0 3) (st 0 3)) b)
          = FAIRNESS_MAX_SKIP))"
proof -
  define c where "c = table (st (7 / 2) 0) (st 0 3) (st 0 3) (st 0 3)"
  have reach: "run init [snap_N_emergency, snap_N_emergency, snap_N_emergency] =
     Inr (replicate 3 \<lparr>phase_order = [N], green_times = [(N, 12)], cycle_time = 16,
            reason = ''Emergency preemption on N''\<rparr>, c)"
    by (simp add: c_def init_table step_N1 step_N2 step_N3 numeral_eq_Suc)
  have h: "em_approaches snap_mixed = []"
    by code_simp
  have w: "skip_streak (state c W) = FAIRNESS_MAX_SKIP"
    by (simp add: c_def table_def st_def FAIRNESS_MAX_SKIP_def)
  have all: "\<forall>b. skip_streak (state c b) \<le> FAIRNESS_MAX_SKIP"
    by (simp add: c_def table_def st_def FAIRNESS_MAX_SKIP_def split: approach.split)
  have d: "score (snapshot_get snap_mixed W) \<noteq> 0"
    by code_simp
  from fairness_order [OF h, of c] w d all
  have "\<exists>plan ctl' pre post. compute_plan c snap_mixed = Inr (plan, ctl') \<and>
      phase_order plan = pre @ W # post \<and>
      (\<forall>b\<in>set pre. skip_streak (state c b) = FAIRNESS_MAX_SKIP)"
    by blast
  with reach h w d all show ?thesis
    unfolding c_def by blast
qed

text \<open>
  The proviso is needed. After two preemptions for N and three for W the streaks are
  3, 5, 5 and 0: N is at \<open>FAIRNESS_MAX_SKIP\<close> and has demand in the next snapshot,
  yet E and S, whose streaks the preemption path let grow to 5, are served before it.
\<close>

theorem ceiling_not_first_counterexample:
  "skips (run init [snap_N_emergency, snap_N_emergency,
                    snap_W_emergency, snap_W_emergency, snap_W_emergency]) = Some [3, 5, 5, 0] \<and>
   FAIRNESS_MAX_SKIP = 3 \<and>
   em_approaches snap_mixed = [] \<and>
   score (snapshot_get snap_mixed N) = 12 \<and>
   orders (run init [snap_N_emergency, snap_N_emergency,
                     snap_W_emergency, snap_W_emergency, snap_W_emergency, snap_mixed]) =
     Some [[N], [N], [W], [W], [W], [E, S, N, W]]"
proof (intro conjI)
  have "\<exists>plans. run init [snap_N_emergency, snap_N_emergency,
        snap_W_emergency, snap_W_emergency, snap_W_emergency] =
      Inr (plans, table (st (3 / 8) 3) (st 0 5) (st 0 5) (st (7 / 2) 0))"
    by (simp add: init_table step_N1 step_N2 step_W3 step_W4 step_W5)
  then show "skips (run init [snap_N_emergency, snap_N_emergency,
                    snap_W_emergency, snap_W_emergency, snap_W_emergency]) = Some [3, 5, 5, 0]"
    by (auto simp: skips_def table_def st_def APPROACHES_def)
  show "FAIRNESS_MAX_SKIP = 3"
    by (simp add: FAIRNESS_MAX_SKIP_def)
  show "em_approaches snap_mixed = []"
    by code_simp
  show "score (snapshot_get snap_mixed N) = 12"
    by code_simp
  show "orders (run init [snap_N_emergency, snap_N_emergency,
                     snap_W_emergency, snap_W_emergency, snap_W_emergency, snap_mixed]) =
     Some [[N], [N], [W], [W], [W], [E, S, N, W]]"
    by (simp add: init_table step_N1 step_N2 step_W3 step_W4 step_W5 step_W5_mixed orders_def)
qed

end
